theory Spec2Isabelle
  imports Main "HOL-Library.Word" "HOL-Library.Sublist"
begin

section \<open>Data model (pkg/models)\<close>

text \<open>
  Go's \<open>int\<close> is a 64-bit two's complement integer on the platforms the tool is built
  for: \<open>+\<close> and \<open>-\<close> wrap around, and the comparisons are on the signed values
  (\<open><s\<close> and \<open>\<le>s\<close> below). Every field decoded from the service's JSON can hold any
  such value.

  A Go string is modelled as the list of its Unicode code points. All the strings the
  gemini package looks at come out of \<open>json.Unmarshal\<close>, which only produces valid
  UTF-8, and the markers searched for are ASCII, so prefixes, indices and slices on
  bytes and on code points agree.
\<close>

type_synonym goint = "64 word"
type_synonym rune = nat
type_synonym gostring = "rune list"

record WordTiming =
  ID :: goint
  Word :: gostring
  StartTime :: goint

record Subtitle =
  StartMs :: goint
  EndMs :: goint
  Text :: gostring

text \<open>
  \<open>SubtitleInput\<close> has the fields \<open>StartWordIndex\<close>, \<open>StartMs\<close>, \<open>LastWordStartMs\<close>,
  \<open>Text\<close> and \<open>Incomplete\<close>; two of these names are fields of \<open>Subtitle\<close> already, so
  the record uses the JSON names the struct tags give them.
\<close>

record SubtitleInput =
  st_id :: goint
  st_ms :: goint
  lw_ms :: goint
  text_in :: gostring
  incomplete :: bool

section \<open>The per-batch timing reconciler (processSubtitles)\<close>

text \<open>
  The body of the \<open>for i, sub := range inputSubtitles\<close> loop: the end time of the
  subtitle at index \<open>i\<close>. It is only called with \<open>i < length inputSubtitles\<close>, and reads
  index \<open>i + 1\<close> only under the guard \<open>i < len(inputSubtitles)-1\<close>.
\<close>

definition endMs_at :: "SubtitleInput list \<Rightarrow> nat \<Rightarrow> goint" where
  "endMs_at inputSubtitles i =
     (let sub = inputSubtitles ! i;
          endMs0 = (0 :: goint);
          endMs1 = (if 0 <s lw_ms sub then lw_ms sub + 1500 else endMs0);
          endMs2 = (if int i < int (length inputSubtitles) - 1
                    then (let nextStart = st_ms (inputSubtitles ! (i + 1)) - 100
                          in if endMs1 = 0 \<or> nextStart <s endMs1 then nextStart else endMs1)
                    else endMs1);
          endMs3 = (if endMs2 \<le>s st_ms sub \<or> endMs2 - st_ms sub <s 1000
                    then st_ms sub + 1000 else endMs2)
      in endMs3)"

definition subtitle_at :: "SubtitleInput list \<Rightarrow> nat \<Rightarrow> Subtitle" where
  "subtitle_at inputSubtitles i =
     \<lparr>StartMs = st_ms (inputSubtitles ! i),
      EndMs = endMs_at inputSubtitles i,
      Text = text_in (inputSubtitles ! i)\<rparr>"

text \<open>The loop appends one subtitle per index, from 0 to the last.\<close>

definition processSubtitles :: "SubtitleInput list \<Rightarrow> Subtitle list" where
  "processSubtitles inputSubtitles =
     foldl (\<lambda>subtitles i. subtitles @ [subtitle_at inputSubtitles i])
       [] [0..<length inputSubtitles]"

section \<open>Properties of the reconciler\<close>

lemma foldl_append_each:
  "foldl (\<lambda>acc i. acc @ [f i]) acc0 is = acc0 @ map f is"
  by (induction "is" arbitrary: acc0) simp_all

lemma processSubtitles_map:
  "processSubtitles cs = map (subtitle_at cs) [0..<length cs]"
  by (simp add: processSubtitles_def foldl_append_each)

lemma length_processSubtitles: "length (processSubtitles cs) = length cs"
  by (simp add: processSubtitles_map)

lemma nth_processSubtitles:
  "i < length cs \<Longrightarrow> processSubtitles cs ! i = subtitle_at cs i"
  by (simp add: processSubtitles_map)

text \<open>
  Claim C10. The reconciler returns exactly one subtitle per candidate, in the same
  order: the lists of start times and of texts of the output are those of the input,
  so no candidate is dropped, merged or reordered.
\<close>

theorem processSubtitles_one_per_candidate:
  "length (processSubtitles cs) = length cs \<and>
   map StartMs (processSubtitles cs) = map st_ms cs \<and>
   map Text (processSubtitles cs) = map text_in cs"
proof -
  have "map StartMs (processSubtitles cs) = map st_ms cs"
    by (rule nth_equalityI) (simp_all add: processSubtitles_map subtitle_at_def)
  moreover have "map Text (processSubtitles cs) = map text_in cs"
    by (rule nth_equalityI) (simp_all add: processSubtitles_map subtitle_at_def)
  ultimately show ?thesis
    by (simp add: length_processSubtitles)
qed

subsection \<open>Signed 64-bit arithmetic\<close>

lemma sint_bounds64: "- (2 ^ 63) \<le> sint (a :: goint) \<and> sint a < 2 ^ 63"
  using sint_ge [of a] sint_lt [of a] by simp

lemma sint_add_1000:
  "sint (a :: goint) \<le> 2 ^ 63 - 1001 \<Longrightarrow> sint (a + 1000) = sint a + 1000"
  using sint_bounds64 [of a]
  by (simp add: sint_word_ariths signed_take_bit_int_eq_self)

lemma sint_sub_100:
  "- (2 ^ 63) + 100 \<le> sint (a :: goint) \<Longrightarrow> sint (a - 100) = sint a - 100"
  using sint_bounds64 [of a]
  by (simp add: sint_word_ariths signed_take_bit_int_eq_self)

lemma signed_take_bit_63_upper:
  assumes "2 ^ 63 \<le> d" and "d < 2 ^ 64"
  shows "signed_take_bit 63 (d::int) = d - 2 ^ 64"
proof -
  have "(d + 2 ^ 63) mod 2 ^ 64 = (d + 2 ^ 63 - 2 ^ 64) mod 2 ^ 64"
    by (simp only: minus_mod_self2)
  also have "\<dots> = d + 2 ^ 63 - 2 ^ 64"
    using assms by (intro mod_pos_pos_trivial) simp_all
  finally show ?thesis
    by (simp add: signed_take_bit_eq_take_bit_shift take_bit_eq_mod)
qed

text \<open>
  When \<open>a < b\<close> and the wrapped difference \<open>b - a\<close> is at least 1000 as a signed value,
  the subtraction did not overflow.
\<close>

lemma sint_diff_exact:
  assumes "sint (a :: goint) < sint b" and "\<not> b - a <s 1000"
  shows "sint (b - a) = sint b - sint a"
proof -
  let ?d = "sint b - sint a"
  have d: "0 < ?d" "?d < 2 ^ 64"
    using assms(1) sint_bounds64 [of a] sint_bounds64 [of b] by simp_all
  have eq: "sint (b - a) = signed_take_bit 63 ?d"
    by (simp add: sint_word_ariths)
  show ?thesis
  proof (cases "?d < 2 ^ 63")
    case True
    then show ?thesis using d eq by (simp add: signed_take_bit_int_eq_self)
  next
    case False
    then have "signed_take_bit 63 ?d = ?d - 2 ^ 64"
      using d by (intro signed_take_bit_63_upper) simp_all
    then have "sint (b - a) < 0" using eq d by simp
    then show ?thesis using assms(2) by (simp add: word_sless_alt)
  qed
qed

subsection \<open>Minimum duration\<close>

text \<open>The last step of the loop body, on its own.\<close>

lemma minimum_step:
  fixes e st :: goint
  assumes "sint st \<le> 2 ^ 63 - 1001"
  shows "1000 \<le> sint (if e \<le>s st \<or> e - st <s 1000 then st + 1000 else e) - sint st"
proof (cases "e \<le>s st \<or> e - st <s 1000")
  case True
  then show ?thesis using assms by (simp add: sint_add_1000)
next
  case False
  then have lt: "sint st < sint e" and nl: "\<not> e - st <s 1000"
    by (simp_all add: word_sle_eq)
  have "sint (e - st) = sint e - sint st"
    using lt nl by (rule sint_diff_exact)
  moreover have "1000 \<le> sint (e - st)"
    using nl by (simp add: word_sless_alt)
  ultimately show ?thesis using False by simp
qed

lemma endMs_at_minimum:
  "sint (st_ms (cs ! i)) \<le> 2 ^ 63 - 1001 \<Longrightarrow>
   1000 \<le> sint (endMs_at cs i) - sint (st_ms (cs ! i))"
  unfolding endMs_at_def Let_def by (rule minimum_step)

text \<open>
  In Go's own wrapping arithmetic the test \<open>EndMs - StartMs >= 1000\<close> succeeds on every
  subtitle the reconciler returns, whatever the input.
\<close>

lemma endMs_at_minimum_wrapped:
  "\<not> endMs_at cs i - st_ms (cs ! i) <s 1000"
  by (simp add: endMs_at_def Let_def word_sless_alt)

lemma processSubtitles_lasts:
  assumes "\<forall>c \<in> set cs. sint (st_ms c) \<le> 2 ^ 63 - 1001"
    and "s \<in> set (processSubtitles cs)"
  shows "1000 \<le> sint (EndMs s) - sint (StartMs s)"
proof -
  from assms(2) obtain i where i: "i < length cs" and s: "s = subtitle_at cs i"
    by (auto simp: processSubtitles_map)
  from i assms(1) have "sint (st_ms (cs ! i)) \<le> 2 ^ 63 - 1001"
    by simp
  then show ?thesis
    using endMs_at_minimum [of cs i] by (simp add: s subtitle_at_def)
qed

text \<open>
  Claim C7, as the code has it. Every subtitle the per-batch reconciler returns lasts
  at least 1000 ms, \<open>end_ms - start_ms \<ge> 1000\<close> on the integers, provided no candidate
  starts within the last 1000 ms of the 64-bit range (so that \<open>StartMs + 1000\<close> does
  not wrap around).
\<close>

theorem processSubtitles_minimum_duration:
  assumes "\<forall>c \<in> set cs. sint (st_ms c) \<le> 2 ^ 63 - 1001"
    and "s \<in> set (processSubtitles cs)"
  shows "1000 \<le> sint (EndMs s) - sint (StartMs s)"
  using assms by (rule processSubtitles_lasts)

definition plain_candidate :: SubtitleInput where
  "plain_candidate =
     \<lparr>st_id = 0, st_ms = 1000, lw_ms = 1200, text_in = [], incomplete = False\<rparr>"

theorem processSubtitles_minimum_duration_witness:
  "processSubtitles [plain_candidate] = [\<lparr>StartMs = 1000, EndMs = 2700, Text = []\<rparr>] \<and>
   1000 \<le> sint (EndMs \<lparr>StartMs = 1000, EndMs = 2700, Text = []\<rparr>)
            - sint (StartMs \<lparr>StartMs = 1000, EndMs = 2700, Text = []\<rparr>)"
proof -
  have run: "processSubtitles [plain_candidate] = [\<lparr>StartMs = 1000, EndMs = 2700, Text = []\<rparr>]"
    by (simp add: processSubtitles_def subtitle_at_def endMs_at_def plain_candidate_def
        word_sless_alt word_sle_eq)
  have "\<forall>c \<in> set [plain_candidate]. sint (st_ms c) \<le> 2 ^ 63 - 1001"
    by (simp add: plain_candidate_def)
  moreover have "\<lparr>StartMs = 1000, EndMs = 2700, Text = []\<rparr> \<in> set (processSubtitles [plain_candidate])"
    by (simp add: run)
  ultimately show ?thesis
    using processSubtitles_minimum_duration run by blast
qed

text \<open>
  As stated, for every candidate list, the claim fails where the forced minimum
  \<open>StartMs + 1000\<close> wraps around: a candidate starting at the largest 64-bit value gets
  a negative end time.
\<close>

definition late_candidate :: SubtitleInput where
  "late_candidate =
     \<lparr>st_id = 0, st_ms = 9223372036854775807, lw_ms = 0, text_in = [], incomplete = False\<rparr>"

theorem processSubtitles_minimum_duration_counterexample:
  "processSubtitles [late_candidate] =
     [\<lparr>StartMs = 9223372036854775807, EndMs = - 9223372036854774809, Text = []\<rparr>] \<and>
   \<not> 1000 \<le> sint (- 9223372036854774809 :: goint) - sint (9223372036854775807 :: goint)"
  by (simp add: processSubtitles_def subtitle_at_def endMs_at_def late_candidate_def
      word_sless_alt word_sle_eq)

subsection \<open>The loop, candidate by candidate\<close>

text \<open>The indexed loop body does not look at the candidates before index \<open>i\<close>.\<close>

lemma endMs_at_Suc: "endMs_at (c # cs) (Suc i) = endMs_at cs i"
proof -
  have "(int (Suc i) < int (length (c # cs)) - 1) = (int i < int (length cs) - 1)"
    by auto
  then show ?thesis
    by (simp add: endMs_at_def Let_def)
qed

lemma subtitle_at_Suc: "subtitle_at (c # cs) (Suc i) = subtitle_at cs i"
  by (simp add: subtitle_at_def endMs_at_Suc)

lemma processSubtitles_Cons:
  "processSubtitles (c # cs) = subtitle_at (c # cs) 0 # processSubtitles cs"
proof -
  have "[0..<length (c # cs)] = 0 # map Suc [0..<length cs]"
    by (simp add: upt_conv_Cons map_Suc_upt del: upt_Suc)
  then show ?thesis
    by (simp add: processSubtitles_map subtitle_at_Suc o_def del: upt_Suc)
qed

section \<open>The reconciliation algorithm as the specification words it\<close>

text \<open>
  The specification gives the reconciler as three steps on a candidate and the
  candidate that follows it in the batch, if any. The definitions below follow those
  words on the integers, reading each 64-bit field as the signed number it holds;
  \<open>None\<close> stands for the infinity that a tentative end of 0 is treated as.
\<close>

definition tentative_end_ms :: "SubtitleInput \<Rightarrow> int" where
  "tentative_end_ms c = (if 0 < sint (lw_ms c) then sint (lw_ms c) + 1500 else 0)"

definition or_infinity :: "int \<Rightarrow> int option" where
  "or_infinity e = (if e = 0 then None else Some e)"

fun min_inf :: "int option \<Rightarrow> int \<Rightarrow> int" where
  "min_inf None n = n"
| "min_inf (Some e) n = min e n"

definition clamped_end_ms :: "SubtitleInput \<Rightarrow> SubtitleInput option \<Rightarrow> int" where
  "clamped_end_ms c following =
     (case following of
        None \<Rightarrow> tentative_end_ms c
      | Some nxt \<Rightarrow> min_inf (or_infinity (tentative_end_ms c)) (sint (st_ms nxt) - 100))"

definition spec_end_ms :: "SubtitleInput \<Rightarrow> SubtitleInput option \<Rightarrow> int" where
  "spec_end_ms c following =
     (let e = clamped_end_ms c following
      in if e \<le> sint (st_ms c) \<or> e - sint (st_ms c) < 1000
         then sint (st_ms c) + 1000 else e)"

fun spec_end_times :: "SubtitleInput list \<Rightarrow> int list" where
  "spec_end_times [] = []"
| "spec_end_times [c] = [spec_end_ms c None]"
| "spec_end_times (c # nxt # cs) = spec_end_ms c (Some nxt) # spec_end_times (nxt # cs)"

text \<open>
  The values the three steps compute on the way: the last word's time plus 1500, the
  following start minus 100, the span of a clamped end that is after the start, and the
  start plus 1000. \<open>no_wrap\<close> says that all of them are 64-bit values, for one
  candidate and for a whole list.
\<close>

definition in_int64 :: "int \<Rightarrow> bool" where
  "in_int64 k \<longleftrightarrow> - (2 ^ 63) \<le> k \<and> k < 2 ^ 63"

definition no_wrap :: "SubtitleInput \<Rightarrow> SubtitleInput option \<Rightarrow> bool" where
  "no_wrap c following \<longleftrightarrow>
     in_int64 (sint (lw_ms c) + 1500) \<and>
     (case following of None \<Rightarrow> True | Some nxt \<Rightarrow> in_int64 (sint (st_ms nxt) - 100)) \<and>
     (sint (st_ms c) < clamped_end_ms c following \<longrightarrow>
        in_int64 (clamped_end_ms c following - sint (st_ms c))) \<and>
     in_int64 (sint (st_ms c) + 1000)"

fun no_wrap_all :: "SubtitleInput list \<Rightarrow> bool" where
  "no_wrap_all [] = True"
| "no_wrap_all [c] = no_wrap c None"
| "no_wrap_all (c # nxt # cs) = (no_wrap c (Some nxt) \<and> no_wrap_all (nxt # cs))"

section \<open>The reconciler against the three steps\<close>

lemma sint_add_in:
  "in_int64 (sint (a :: goint) + sint b) \<Longrightarrow> sint (a + b) = sint a + sint b"
  by (simp add: in_int64_def sint_word_ariths signed_take_bit_int_eq_self)

lemma sint_sub_in:
  "in_int64 (sint (a :: goint) - sint b) \<Longrightarrow> sint (a - b) = sint a - sint b"
  by (simp add: in_int64_def sint_word_ariths signed_take_bit_int_eq_self)

lemma sint_eq_0_iff: "sint (a :: goint) = 0 \<longleftrightarrow> a = 0"
  by (rule signed_eq_0_iff)

definition following_of :: "SubtitleInput list \<Rightarrow> SubtitleInput option" where
  "following_of rest = (case rest of [] \<Rightarrow> None | nxt # _ \<Rightarrow> Some nxt)"

lemma endMs_at_head:
  assumes "no_wrap c (following_of rest)"
  shows "sint (endMs_at (c # rest) 0) = spec_end_ms c (following_of rest)"
proof -
  define t where "t = (if 0 <s lw_ms c then lw_ms c + 1500 else 0)"
  define e where "e = (if int 0 < int (length (c # rest)) - 1
      then (let nextStart = st_ms ((c # rest) ! (0 + 1)) - 100
            in if t = 0 \<or> nextStart <s t then nextStart else t)
      else t)"
  have code: "endMs_at (c # rest) 0 =
      (if e \<le>s st_ms c \<or> e - st_ms c <s 1000 then st_ms c + 1000 else e)"
    by (simp add: endMs_at_def Let_def e_def t_def)
  from assms have r1: "in_int64 (sint (lw_ms c) + sint (1500 :: goint))"
    and r4: "in_int64 (sint (st_ms c) + sint (1000 :: goint))"
    and r3: "sint (st_ms c) < clamped_end_ms c (following_of rest) \<Longrightarrow>
           in_int64 (clamped_end_ms c (following_of rest) - sint (st_ms c))"
    by (simp_all add: no_wrap_def)
  have t: "sint t = tentative_end_ms c"
    using sint_add_in [OF r1] by (simp add: t_def tentative_end_ms_def word_sless_alt)
  have t0: "t = 0 \<longleftrightarrow> tentative_end_ms c = 0"
    using t sint_eq_0_iff [of t] by simp
  have e: "sint e = clamped_end_ms c (following_of rest)"
  proof (cases rest)
    case Nil
    then show ?thesis
      by (simp add: e_def t clamped_end_ms_def following_of_def)
  next
    case (Cons nxt more)
    with assms have "in_int64 (sint (st_ms nxt) - sint (100 :: goint))"
      by (simp add: no_wrap_def following_of_def)
    then have n: "sint (st_ms nxt - 100) = sint (st_ms nxt) - 100"
      using sint_sub_in by fastforce
    show ?thesis
      using Cons n t t0
      by (auto simp: e_def clamped_end_ms_def following_of_def or_infinity_def Let_def
          word_sless_alt min_def)
  qed
  have f: "sint (st_ms c + 1000) = sint (st_ms c) + 1000"
    using sint_add_in [OF r4] by simp
  show ?thesis
  proof (cases "e \<le>s st_ms c")
    case True
    then show ?thesis
      by (simp add: code spec_end_ms_def Let_def word_sle_eq f e [symmetric])
  next
    case False
    then have "sint (st_ms c) < clamped_end_ms c (following_of rest)"
      by (simp add: word_sle_eq e)
    then have "in_int64 (sint e - sint (st_ms c))"
      using r3 e by simp
    then have d: "sint (e - st_ms c) = sint e - sint (st_ms c)"
      by (rule sint_sub_in)
    show ?thesis
      using False
      by (simp add: code spec_end_ms_def Let_def word_sle_eq word_sless_alt d f e [symmetric])
  qed
qed

text \<open>
  Claim C6, as the code has it. For every candidate list in which none of the values
  that the three steps compute leaves the 64-bit range, the end times the reconciler
  returns are, as integers, those of the three steps of the specification: the
  tentative end (last word plus 1500 when the last word's time is positive, else 0),
  the minimum with the following candidate's start minus 100 where the tentative end
  counts as infinity when 0, and the forced start plus 1000 when the result is not
  after the start or the span is under 1000.
\<close>

theorem processSubtitles_three_steps:
  "no_wrap_all cs \<Longrightarrow> map (\<lambda>s. sint (EndMs s)) (processSubtitles cs) = spec_end_times cs"
proof (induction cs rule: spec_end_times.induct)
  case 1
  show ?case by (simp add: processSubtitles_def)
next
  case (2 c)
  then have "no_wrap c (following_of [])" by (simp add: following_of_def)
  then have "sint (endMs_at [c] 0) = spec_end_ms c None"
    using endMs_at_head [of c "[]"] by (simp add: following_of_def)
  then show ?case
    by (simp add: processSubtitles_Cons subtitle_at_def) (simp add: processSubtitles_def)
next
  case (3 c nxt cs)
  then have "no_wrap c (following_of (nxt # cs))" by (simp add: following_of_def)
  then have "sint (endMs_at (c # nxt # cs) 0) = spec_end_ms c (Some nxt)"
    using endMs_at_head [of c "nxt # cs"] by (simp add: following_of_def)
  with 3 show ?case
    by (simp add: processSubtitles_Cons [of c] subtitle_at_def)
qed

definition spaced_candidates :: "SubtitleInput list" where
  "spaced_candidates =
     [\<lparr>st_id = 0, st_ms = 1000, lw_ms = 3000, text_in = [], incomplete = False\<rparr>,
      \<lparr>st_id = 9, st_ms = 4000, lw_ms = 5000, text_in = [], incomplete = False\<rparr>]"

theorem processSubtitles_three_steps_witness:
  "map (\<lambda>s. sint (EndMs s)) (processSubtitles spaced_candidates) = [3900, 6500]"
proof -
  have "no_wrap_all spaced_candidates"
    by (simp add: spaced_candidates_def no_wrap_def in_int64_def clamped_end_ms_def
        tentative_end_ms_def or_infinity_def)
  then have "map (\<lambda>s. sint (EndMs s)) (processSubtitles spaced_candidates)
      = spec_end_times spaced_candidates"
    by (rule processSubtitles_three_steps)
  also have "\<dots> = [3900, 6500]"
    by (simp add: spaced_candidates_def spec_end_ms_def clamped_end_ms_def
        tentative_end_ms_def or_infinity_def)
  finally show ?thesis .
qed

text \<open>
  For every candidate list, as C6 is stated, the claim fails where the span wraps
  around. For a lone candidate that starts at -9223372036854775000 and whose last word
  starts at 9223372036854770000, the three steps give the end 9223372036854771500 (after
  the start, and far more than 1000 after it); in the code the span
  \<open>endMs - StartMs\<close> wraps around to a negative number, and the end is forced to the
  start plus 1000.
\<close>

definition far_candidate :: SubtitleInput where
  "far_candidate =
     \<lparr>st_id = 0, st_ms = - 9223372036854775000, lw_ms = 9223372036854770000,
      text_in = [], incomplete = False\<rparr>"

theorem processSubtitles_three_steps_counterexample:
  "map (\<lambda>s. sint (EndMs s)) (processSubtitles [far_candidate]) = [- 9223372036854774000] \<and>
   spec_end_times [far_candidate] = [9223372036854771500]"
  by (simp add: processSubtitles_def subtitle_at_def endMs_at_def far_candidate_def
      word_sless_alt word_sle_eq spec_end_ms_def clamped_end_ms_def tentative_end_ms_def)

section \<open>The track assembler's overlap pass (CreateSubtitles, after the batch loop)\<close>

text \<open>
  The body of \<open>for i := 1; i < len(allSubtitles); i++\<close>: when the subtitle before index
  \<open>i\<close> ends after the one at \<open>i\<close> starts, its end is set to that start minus 100. The
  loop runs only when there is more than one subtitle.
\<close>

definition clamp_end :: "Subtitle list \<Rightarrow> nat \<Rightarrow> Subtitle list" where
  "clamp_end allSubtitles i =
     (if StartMs (allSubtitles ! i) <s EndMs (allSubtitles ! (i - 1))
      then allSubtitles[i - 1 := (allSubtitles ! (i - 1))
             \<lparr>EndMs := StartMs (allSubtitles ! i) - 100\<rparr>]
      else allSubtitles)"

definition postProcess :: "Subtitle list \<Rightarrow> Subtitle list" where
  "postProcess allSubtitles =
     (if 1 < length allSubtitles
      then foldl clamp_end allSubtitles [1..<length allSubtitles]
      else allSubtitles)"

section \<open>Properties of the overlap pass\<close>

text \<open>What the pass leaves at index \<open>j\<close>, read off the input list.\<close>

definition clamped :: "Subtitle list \<Rightarrow> nat \<Rightarrow> Subtitle" where
  "clamped a j =
     (if j + 1 < length a \<and> StartMs (a ! (j + 1)) <s EndMs (a ! j)
      then (a ! j)\<lparr>EndMs := StartMs (a ! (j + 1)) - 100\<rparr>
      else a ! j)"

lemma length_clamp_end [simp]: "length (clamp_end a i) = length a"
  by (simp add: clamp_end_def)

lemma foldl_clamp_end:
  "k < length a \<Longrightarrow>
   length (foldl clamp_end a [1..<Suc k]) = length a \<and>
   (\<forall>j < length a. foldl clamp_end a [1..<Suc k] ! j = (if j < k then clamped a j else a ! j))"
proof (induction k)
  case 0
  show ?case by simp
next
  case (Suc k)
  define r where "r = foldl clamp_end a [1..<Suc k]"
  from Suc have k: "Suc k < length a" and len: "length r = length a"
    and nth: "\<And>j. j < length a \<Longrightarrow> r ! j = (if j < k then clamped a j else a ! j)"
    unfolding r_def by simp_all
  have step: "foldl clamp_end a [1..<Suc (Suc k)] = clamp_end r (Suc k)"
    unfolding r_def by simp
  have rk: "r ! k = a ! k" and rsk: "r ! Suc k = a ! Suc k"
    using k nth [of k] nth [of "Suc k"] by simp_all
  have "length (clamp_end r (Suc k)) = length a"
    by (simp add: len)
  moreover have "clamp_end r (Suc k) ! j = (if j < Suc k then clamped a j else a ! j)"
    if j: "j < length a" for j
  proof (cases "j = k")
    case True
    then show ?thesis
      using k by (simp add: clamp_end_def rk rsk len clamped_def)
  next
    case False
    then show ?thesis
      using k j nth [of j] by (auto simp: clamp_end_def rk rsk len)
  qed
  ultimately show ?case
    unfolding step by blast
qed

lemma length_postProcess [simp]: "length (postProcess a) = length a"
proof (cases "1 < length a")
  case True
  then have "length a = Suc (length a - 1)" by simp
  then have "foldl clamp_end a [1..<length a] = foldl clamp_end a [1..<Suc (length a - 1)]"
    by (rule arg_cong)
  then show ?thesis
    using True foldl_clamp_end [of "length a - 1" a] by (simp add: postProcess_def del: upt_Suc)
next
  case False
  then show ?thesis by (simp add: postProcess_def)
qed

lemma nth_postProcess:
  assumes "j < length a"
  shows "postProcess a ! j = clamped a j"
proof (cases "1 < length a")
  case True
  then have "length a = Suc (length a - 1)" by simp
  then have "foldl clamp_end a [1..<length a] = foldl clamp_end a [1..<Suc (length a - 1)]"
    by (rule arg_cong)
  then have "postProcess a ! j = (if j < length a - 1 then clamped a j else a ! j)"
    using True assms foldl_clamp_end [of "length a - 1" a]
    by (simp add: postProcess_def del: upt_Suc)
  moreover have "\<not> j < length a - 1 \<Longrightarrow> clamped a j = a ! j"
    by (auto simp: clamped_def)
  ultimately show ?thesis by simp
next
  case False
  with assms show ?thesis by (simp add: postProcess_def clamped_def)
qed

lemma StartMs_clamped [simp]: "StartMs (clamped a j) = StartMs (a ! j)"
  by (simp add: clamped_def)

lemma Text_clamped [simp]: "Text (clamped a j) = Text (a ! j)"
  by (simp add: clamped_def)

lemma EndMs_clamped:
  "EndMs (clamped a j) =
     (if j + 1 < length a \<and> StartMs (a ! (j + 1)) <s EndMs (a ! j)
      then StartMs (a ! (j + 1)) - 100 else EndMs (a ! j))"
  by (simp add: clamped_def)

text \<open>
  Claim C4, as the code has it. After the pass, each subtitle ends no later than the
  next one starts, provided no subtitle starts within 100 ms of the smallest 64-bit
  value (so that \<open>StartMs - 100\<close> does not wrap around).
\<close>

theorem postProcess_no_overlap:
  assumes "\<forall>s \<in> set a. - (2 ^ 63) + 100 \<le> sint (StartMs s)"
    and "Suc j < length a"
  shows "sint (EndMs (postProcess a ! j)) \<le> sint (StartMs (postProcess a ! Suc j))"
proof -
  from assms have "- (2 ^ 63) + 100 \<le> sint (StartMs (a ! Suc j))"
    by simp
  then have sub: "sint (StartMs (a ! Suc j) - 100) = sint (StartMs (a ! Suc j)) - 100"
    by (rule sint_sub_100)
  from assms(2) have "postProcess a ! j = clamped a j"
    and "postProcess a ! Suc j = clamped a (Suc j)"
    by (simp_all add: nth_postProcess)
  then show ?thesis
    using assms(2) sub by (simp add: EndMs_clamped word_sless_alt)
qed

text \<open>
  Claim C9, as the code has it. For every input list the pass keeps the length of the
  list and every subtitle's start time and text. No end time grows, provided no
  subtitle starts within 100 ms of the smallest 64-bit value (so that
  \<open>StartMs - 100\<close> does not wrap around).
\<close>

theorem postProcess_frame:
  "length (postProcess a) = length a \<and>
   map StartMs (postProcess a) = map StartMs a \<and>
   map Text (postProcess a) = map Text a \<and>
   ((\<forall>s \<in> set a. - (2 ^ 63) + 100 \<le> sint (StartMs s)) \<longrightarrow>
    (\<forall>j < length a. sint (EndMs (postProcess a ! j)) \<le> sint (EndMs (a ! j))))"
proof -
  have "map StartMs (postProcess a) = map StartMs a"
    by (rule nth_equalityI) (simp_all add: nth_postProcess)
  moreover have "map Text (postProcess a) = map Text a"
    by (rule nth_equalityI) (simp_all add: nth_postProcess)
  moreover have "sint (EndMs (postProcess a ! j)) \<le> sint (EndMs (a ! j))"
    if range: "\<forall>s \<in> set a. - (2 ^ 63) + 100 \<le> sint (StartMs s)"
      and j: "j < length a" for j
  proof (cases "j + 1 < length a \<and> StartMs (a ! (j + 1)) <s EndMs (a ! j)")
    case True
    then have "- (2 ^ 63) + 100 \<le> sint (StartMs (a ! (j + 1)))"
      using range by simp
    then have "sint (StartMs (a ! (j + 1)) - 100) = sint (StartMs (a ! (j + 1))) - 100"
      by (rule sint_sub_100)
    then show ?thesis
      using True j by (simp add: nth_postProcess EndMs_clamped word_sless_alt)
  next
    case False
    then show ?thesis
      using j by (auto simp: nth_postProcess EndMs_clamped)
  qed
  ultimately show ?thesis by simp
qed

lemma StartMs_processSubtitles:
  "s \<in> set (processSubtitles cs) \<Longrightarrow> \<exists>c \<in> set cs. StartMs s = st_ms c"
  by (auto simp: processSubtitles_map subtitle_at_def)

text \<open>
  Claim C5, as the code has it. The final track is the pass applied to the
  concatenation of the reconciled batches. When every candidate starts between
  \<open>-2^63 + 100\<close> and \<open>2^63 - 1001\<close>, each subtitle of the track either lasts at least
  1000 ms, or is followed by another one and ends exactly 100 ms before that one
  starts: the pass does not look at the subtitle's own start when it clamps the end.
\<close>

theorem final_track_duration:
  assumes "\<forall>cs \<in> set batches. \<forall>c \<in> set cs.
             - (2 ^ 63) + 100 \<le> sint (st_ms c) \<and> sint (st_ms c) \<le> 2 ^ 63 - 1001"
    and "j < length (postProcess (concat (map processSubtitles batches)))"
  shows "1000 \<le> sint (EndMs (postProcess (concat (map processSubtitles batches)) ! j))
                 - sint (StartMs (postProcess (concat (map processSubtitles batches)) ! j)) \<or>
         (Suc j < length (postProcess (concat (map processSubtitles batches))) \<and>
          sint (EndMs (postProcess (concat (map processSubtitles batches)) ! j)) =
            sint (StartMs (postProcess (concat (map processSubtitles batches)) ! Suc j)) - 100)"
proof -
  define a where "a = concat (map processSubtitles batches)"
  have range: "- (2 ^ 63) + 100 \<le> sint (StartMs s) \<and> sint (StartMs s) \<le> 2 ^ 63 - 1001"
    if "s \<in> set a" for s
  proof -
    from that obtain cs where cs: "cs \<in> set batches" and "s \<in> set (processSubtitles cs)"
      by (auto simp: a_def)
    then obtain c where "c \<in> set cs" and "StartMs s = st_ms c"
      using StartMs_processSubtitles by blast
    with cs assms(1) show ?thesis by simp
  qed
  from assms(2) have j: "j < length a" by (simp add: a_def)
  then have "a ! j \<in> set a" by simp
  then obtain cs where cs: "cs \<in> set batches" and mem: "a ! j \<in> set (processSubtitles cs)"
    by (auto simp: a_def)
  from cs assms(1) have "\<forall>c \<in> set cs. sint (st_ms c) \<le> 2 ^ 63 - 1001" by simp
  then have dur: "1000 \<le> sint (EndMs (a ! j)) - sint (StartMs (a ! j))"
    using mem by (rule processSubtitles_lasts)
  have "1000 \<le> sint (EndMs (postProcess a ! j)) - sint (StartMs (postProcess a ! j)) \<or>
        (Suc j < length (postProcess a) \<and>
         sint (EndMs (postProcess a ! j)) = sint (StartMs (postProcess a ! Suc j)) - 100)"
  proof (cases "j + 1 < length a \<and> StartMs (a ! (j + 1)) <s EndMs (a ! j)")
    case True
    then have "a ! Suc j \<in> set a" by simp
    then have "- (2 ^ 63) + 100 \<le> sint (StartMs (a ! Suc j))"
      using range by blast
    then have "sint (StartMs (a ! Suc j) - 100) = sint (StartMs (a ! Suc j)) - 100"
      by (rule sint_sub_100)
    then show ?thesis
      using True j by (simp add: nth_postProcess EndMs_clamped)
  next
    case False
    then have "postProcess a ! j = a ! j"
      using j by (auto simp: nth_postProcess clamped_def)
    then show ?thesis using dur by simp
  qed
  then show ?thesis
    unfolding a_def .
qed

subsection \<open>Concrete runs of the pass\<close>

definition first_candidate :: SubtitleInput where
  "first_candidate =
     \<lparr>st_id = 0, st_ms = 0, lw_ms = 0, text_in = [], incomplete = False\<rparr>"

definition earliest_candidate :: SubtitleInput where
  "earliest_candidate =
     \<lparr>st_id = 1, st_ms = - 9223372036854775808, lw_ms = 0, text_in = [],
      incomplete = False\<rparr>"

lemma processSubtitles_first_earliest: "processSubtitles [first_candidate, earliest_candidate] =
     [\<lparr>StartMs = 0, EndMs = 9223372036854775708, Text = []\<rparr>,
      \<lparr>StartMs = - 9223372036854775808, EndMs = - 9223372036854774808, Text = []\<rparr>]"
  by (simp add: processSubtitles_def subtitle_at_def endMs_at_def first_candidate_def
      earliest_candidate_def word_sless_alt word_sle_eq)

text \<open>
  For every track, as C4 is stated, the claim fails when the later subtitle starts at
  the smallest 64-bit value: the clamped end wraps around to a large positive time.
\<close>

theorem postProcess_no_overlap_counterexample:
  "postProcess (processSubtitles [first_candidate, earliest_candidate]) =
     [\<lparr>StartMs = 0, EndMs = 9223372036854775708, Text = []\<rparr>,
      \<lparr>StartMs = - 9223372036854775808, EndMs = - 9223372036854774808, Text = []\<rparr>] \<and>
   \<not> sint (9223372036854775708 :: goint) \<le> sint (- 9223372036854775808 :: goint)"
  by (simp add: processSubtitles_first_earliest postProcess_def clamp_end_def word_sless_alt)

definition overlapping_pair :: "Subtitle list" where
  "overlapping_pair =
     [\<lparr>StartMs = 1000, EndMs = 2000, Text = []\<rparr>,
      \<lparr>StartMs = 1050, EndMs = 2050, Text = []\<rparr>]"

lemma postProcess_overlapping_pair:
  "postProcess overlapping_pair =
     [\<lparr>StartMs = 1000, EndMs = 950, Text = []\<rparr>,
      \<lparr>StartMs = 1050, EndMs = 2050, Text = []\<rparr>]"
  by (simp add: overlapping_pair_def postProcess_def clamp_end_def word_sless_alt)

theorem postProcess_no_overlap_witness:
  "sint (EndMs (postProcess overlapping_pair ! 0))
     \<le> sint (StartMs (postProcess overlapping_pair ! Suc 0))"
proof -
  have "\<forall>s \<in> set overlapping_pair. - (2 ^ 63) + 100 \<le> sint (StartMs s)"
    by (simp add: overlapping_pair_def)
  moreover have "Suc 0 < length overlapping_pair"
    by (simp add: overlapping_pair_def)
  ultimately show ?thesis
    by (rule postProcess_no_overlap)
qed

definition worded_candidate :: SubtitleInput where
  "worded_candidate =
     \<lparr>st_id = 0, st_ms = 0, lw_ms = 1000, text_in = [], incomplete = False\<rparr>"

lemma processSubtitles_worded_earliest:
  "processSubtitles [worded_candidate, earliest_candidate] =
     [\<lparr>StartMs = 0, EndMs = 2500, Text = []\<rparr>,
      \<lparr>StartMs = - 9223372036854775808, EndMs = - 9223372036854774808, Text = []\<rparr>]"
  by (simp add: processSubtitles_def subtitle_at_def endMs_at_def worded_candidate_def
      earliest_candidate_def word_sless_alt word_sle_eq)

text \<open>
  For every input list, as C9 is stated, the end time can grow, by the same
  wrap-around: the reconciler gives the first of these two candidates the end 2500, and
  the pass moves it to 9223372036854775708.
\<close>

theorem postProcess_frame_counterexample:
  "processSubtitles [worded_candidate, earliest_candidate] ! 0 =
     \<lparr>StartMs = 0, EndMs = 2500, Text = []\<rparr> \<and>
   postProcess (processSubtitles [worded_candidate, earliest_candidate]) ! 0 =
     \<lparr>StartMs = 0, EndMs = 9223372036854775708, Text = []\<rparr> \<and>
   \<not> sint (9223372036854775708 :: goint) \<le> sint (2500 :: goint)"
  by (simp add: processSubtitles_worded_earliest postProcess_def clamp_end_def word_sless_alt)

theorem postProcess_frame_witness:
  "length (postProcess overlapping_pair) = length overlapping_pair \<and>
   map StartMs (postProcess overlapping_pair) = map StartMs overlapping_pair \<and>
   map Text (postProcess overlapping_pair) = map Text overlapping_pair \<and>
   sint (EndMs (postProcess overlapping_pair ! 0)) \<le> sint (EndMs (overlapping_pair ! 0)) \<and>
   sint (EndMs (postProcess overlapping_pair ! 1)) \<le> sint (EndMs (overlapping_pair ! 1))"
proof -
  have range: "\<forall>s \<in> set overlapping_pair. - (2 ^ 63) + 100 \<le> sint (StartMs s)"
    by (simp add: overlapping_pair_def)
  have "(0::nat) < length overlapping_pair" and "(1::nat) < length overlapping_pair"
    by (simp_all add: overlapping_pair_def)
  with range show ?thesis
    using postProcess_frame [of overlapping_pair] by blast
qed

definition close_candidates :: "SubtitleInput list" where
  "close_candidates =
     [\<lparr>st_id = 0, st_ms = 1000, lw_ms = 0, text_in = [], incomplete = False\<rparr>,
      \<lparr>st_id = 1, st_ms = 1050, lw_ms = 0, text_in = [], incomplete = False\<rparr>]"

lemma processSubtitles_close_candidates:
  "processSubtitles close_candidates = overlapping_pair"
  by (simp add: processSubtitles_def subtitle_at_def endMs_at_def close_candidates_def
      overlapping_pair_def word_sless_alt word_sle_eq)

text \<open>
  As C5 is stated, the claim fails on two candidates starting at 1000 and 1050: the
  reconciler forces the first end to 2000, and the pass clamps it to 950, before the
  subtitle's own start.
\<close>

theorem final_track_duration_counterexample:
  "postProcess (concat (map processSubtitles [close_candidates])) =
     [\<lparr>StartMs = 1000, EndMs = 950, Text = []\<rparr>,
      \<lparr>StartMs = 1050, EndMs = 2050, Text = []\<rparr>] \<and>
   \<not> sint (1000 :: goint) < sint (950 :: goint)"
  by (simp add: processSubtitles_close_candidates postProcess_overlapping_pair)

theorem final_track_duration_witness:
  "1000 \<le> sint (EndMs (postProcess (concat (map processSubtitles [close_candidates])) ! 0))
           - sint (StartMs (postProcess (concat (map processSubtitles [close_candidates])) ! 0)) \<or>
   (Suc 0 < length (postProcess (concat (map processSubtitles [close_candidates]))) \<and>
    sint (EndMs (postProcess (concat (map processSubtitles [close_candidates])) ! 0)) =
      sint (StartMs (postProcess (concat (map processSubtitles [close_candidates])) ! Suc 0)) - 100)"
proof -
  have "\<forall>cs \<in> set [close_candidates]. \<forall>c \<in> set cs.
          - (2 ^ 63) + 100 \<le> sint (st_ms c) \<and> sint (st_ms c) \<le> 2 ^ 63 - 1001"
    by (simp add: close_candidates_def)
  moreover have "0 < length (postProcess (concat (map processSubtitles [close_candidates])))"
    by (simp add: processSubtitles_close_candidates overlapping_pair_def)
  ultimately show ?thesis
    by (rule final_track_duration)
qed

section \<open>Response cleanup (cleanJsonContent)\<close>

text \<open>
  The functions of Go's \<open>strings\<close> package that \<open>cleanJsonContent\<close> calls, on code
  points. \<open>isSpace\<close> is \<open>unicode.IsSpace\<close>: tab, line feed, vertical tab, form feed,
  carriage return, space, U+0085, U+00A0, U+1680, U+2000 to U+200A, U+2028, U+2029,
  U+202F, U+205F and U+3000. \<open>TrimSpace\<close> removes the white space at both ends.
\<close>

definition isSpace :: "rune \<Rightarrow> bool" where
  "isSpace r \<longleftrightarrow>
     r \<in> {9, 10, 11, 12, 13, 32, 133, 160, 5760, 8232, 8233, 8239, 8287, 12288}
     \<or> (8192 \<le> r \<and> r \<le> 8202)"

definition TrimSpace :: "gostring \<Rightarrow> gostring" where
  "TrimSpace s = rev (dropWhile isSpace (rev (dropWhile isSpace s)))"

definition HasPrefix :: "gostring \<Rightarrow> gostring \<Rightarrow> bool" where
  "HasPrefix s pre = prefix pre s"

definition TrimPrefix :: "gostring \<Rightarrow> gostring \<Rightarrow> gostring" where
  "TrimPrefix s pre = (if HasPrefix s pre then drop (length pre) s else s)"

text \<open>
  \<open>strings.LastIndex\<close> gives the index of the last occurrence of \<open>substr\<close> in \<open>s\<close>, or
  -1 when there is none; the search below tries the start positions from the end of
  \<open>s\<close> down to 0.
\<close>

fun LastIndex_from :: "gostring \<Rightarrow> gostring \<Rightarrow> nat \<Rightarrow> int" where
  "LastIndex_from s substr 0 = (if prefix substr s then 0 else - 1)"
| "LastIndex_from s substr (Suc i) =
     (if prefix substr (drop (Suc i) s) then int (Suc i) else LastIndex_from s substr i)"

definition LastIndex :: "gostring \<Rightarrow> gostring \<Rightarrow> int" where
  "LastIndex s substr = LastIndex_from s substr (length s)"

text \<open>The two markers, three backquotes with and without \<open>json\<close>.\<close>

definition fence_json :: gostring where
  "fence_json = map of_char ''```json''"

definition fence :: gostring where
  "fence = map of_char ''```''"

definition cleanJsonContent :: "gostring \<Rightarrow> gostring" where
  "cleanJsonContent jsonContent0 =
     (let jsonContent1 = TrimSpace jsonContent0;
          jsonContent2 =
            (if HasPrefix jsonContent1 fence_json
             then (let trimmed = TrimPrefix jsonContent1 fence_json;
                       idx = LastIndex trimmed fence
                   in if idx \<noteq> - 1 then take (nat idx) trimmed else trimmed)
             else if HasPrefix jsonContent1 fence
             then (let trimmed = TrimPrefix jsonContent1 fence;
                       idx = LastIndex trimmed fence
                   in if idx \<noteq> - 1 then take (nat idx) trimmed else trimmed)
             else jsonContent1)
      in TrimSpace jsonContent2)"

section \<open>Properties of the response cleanup\<close>

lemma fence_json_eq: "fence_json = [96, 96, 96, 106, 115, 111, 110]"
  by (simp add: fence_json_def)

lemma fence_eq: "fence = [96, 96, 96]"
  by (simp add: fence_def)

lemma last_dropWhile: "dropWhile P xs \<noteq> [] \<Longrightarrow> last (dropWhile P xs) = last xs"
  by (induction xs) (auto split: if_splits)

lemma TrimSpace_fixed:
  assumes "s \<noteq> []" and "\<not> isSpace (hd s)" and "\<not> isSpace (last s)"
  shows "TrimSpace s = s"
proof -
  from assms(1,2) have "dropWhile isSpace s = s"
    by (cases s) simp_all
  moreover from assms(1,3) have "dropWhile isSpace (rev s) = rev s"
    by (cases "rev s") (simp_all add: hd_rev [symmetric])
  ultimately show ?thesis by (simp add: TrimSpace_def)
qed

lemma TrimSpace_ends:
  assumes "TrimSpace s \<noteq> []"
  shows "\<not> isSpace (hd (TrimSpace s)) \<and> \<not> isSpace (last (TrimSpace s))"
proof -
  define d where "d = dropWhile isSpace s"
  define e where "e = dropWhile isSpace (rev d)"
  from assms have e: "e \<noteq> []" by (simp add: TrimSpace_def e_def d_def)
  then have d: "d \<noteq> []" by (auto simp: e_def)
  have "hd (rev e) = last e" using e by (simp add: hd_rev)
  also have "\<dots> = last (rev d)" using e unfolding e_def by (rule last_dropWhile)
  also have "\<dots> = hd d" using d by (simp add: last_rev)
  finally have "hd (rev e) = hd d" .
  moreover have "\<not> isSpace (hd d)" using d unfolding d_def by (rule hd_dropWhile)
  moreover have "last (rev e) = hd e" using e by (simp add: last_rev)
  moreover have "\<not> isSpace (hd e)" using e unfolding e_def by (rule hd_dropWhile)
  ultimately show ?thesis by (simp add: TrimSpace_def e_def d_def)
qed

lemma TrimSpace_idem: "TrimSpace (TrimSpace s) = TrimSpace s"
proof (cases "TrimSpace s = []")
  case True
  have "TrimSpace [] = []" by (simp add: TrimSpace_def)
  with True show ?thesis by simp
next
  case False
  then show ?thesis using TrimSpace_ends [OF False] by (intro TrimSpace_fixed) simp_all
qed

lemma LastIndex_closing_fence: "LastIndex (t @ fence) fence = int (length t)"
proof -
  have "length (t @ fence) = Suc (Suc (Suc (length t)))"
    by (simp add: fence_eq)
  then show ?thesis
    by (cases "length t") (simp_all add: LastIndex_def fence_eq)
qed

lemma not_isSpace_backtick: "\<not> isSpace 96"
  by (simp add: isSpace_def)

lemma TrimSpace_fenced_json: "TrimSpace (fence_json @ t @ fence) = fence_json @ t @ fence"
  by (rule TrimSpace_fixed) (simp_all add: fence_json_eq fence_eq not_isSpace_backtick)

lemma TrimSpace_fenced: "TrimSpace (fence @ t @ fence) = fence @ t @ fence"
  by (rule TrimSpace_fixed) (simp_all add: fence_eq not_isSpace_backtick)

lemma cleanJsonContent_unfenced:
  "\<not> prefix fence (TrimSpace t) \<Longrightarrow> cleanJsonContent t = TrimSpace t"
proof -
  assume nf: "\<not> prefix fence (TrimSpace t)"
  have "prefix fence fence_json" by (simp add: fence_eq fence_json_eq)
  with nf have "\<not> prefix fence_json (TrimSpace t)"
    using prefix_order.trans by blast
  with nf show ?thesis
    by (simp add: cleanJsonContent_def HasPrefix_def TrimSpace_idem)
qed

lemma cleanJsonContent_fenced_json:
  "cleanJsonContent (fence_json @ t @ fence) = TrimSpace t"
  by (simp add: cleanJsonContent_def TrimSpace_fenced_json HasPrefix_def TrimPrefix_def
      LastIndex_closing_fence Let_def)

lemma json_before_fence:
  assumes "prefix (map of_char ''json'') (t @ fence)"
  shows "prefix (map of_char ''json'') t"
proof (rule ccontr)
  assume np: "\<not> prefix (map of_char ''json'') t"
  with assms obtain us where js: "map of_char ''json'' = t @ us" and us: "prefix us fence"
    by (auto simp: prefix_append)
  from np js have ne: "us \<noteq> []" by auto
  then have "last us \<in> set us" by simp
  moreover from us have "set us \<subseteq> set fence" by (rule set_mono_prefix)
  ultimately have "last us = 96" by (auto simp: fence_eq)
  moreover have "last (map of_char ''json'' :: gostring) = last us"
    using ne by (simp only: js last_append if_False)
  ultimately show False by simp
qed

lemma cleanJsonContent_fenced_plain:
  assumes "\<not> prefix (map of_char ''json'') t"
  shows "cleanJsonContent (fence @ t @ fence) = TrimSpace t"
proof -
  have "\<not> prefix fence_json (fence @ t @ fence)"
  proof
    assume "prefix fence_json (fence @ t @ fence)"
    then have "prefix (fence @ map of_char ''json'') (fence @ t @ fence)"
      by (simp add: fence_json_def fence_def)
    then have "prefix (map of_char ''json'') (t @ fence)" by simp
    then show False using assms json_before_fence by blast
  qed
  then show ?thesis
    by (simp add: cleanJsonContent_def TrimSpace_fenced HasPrefix_def TrimPrefix_def
      LastIndex_closing_fence Let_def)
qed

text \<open>
  Claim C8, as the code has it. Let \<open>t\<close> be a response text that, once trimmed, does
  not itself begin with three backquotes. Cleaning \<open>t\<close> between a leading
  \<open>```json\<close> fence and a trailing \<open>```\<close> fence gives the same string as cleaning \<open>t\<close>;
  so does cleaning \<open>t\<close> between two bare \<open>```\<close> fences, unless \<open>t\<close> begins with the
  letters \<open>json\<close> (which the leading fence would then absorb). The array parsed from the
  cleaned string is therefore the same.
\<close>

theorem cleanJsonContent_fences:
  assumes "\<not> prefix fence (TrimSpace t)"
  shows "cleanJsonContent (fence_json @ t @ fence) = cleanJsonContent t \<and>
         (\<not> prefix (map of_char ''json'') t \<longrightarrow>
            cleanJsonContent (fence @ t @ fence) = cleanJsonContent t)"
  using assms
  by (simp add: cleanJsonContent_unfenced cleanJsonContent_fenced_json
      cleanJsonContent_fenced_plain)

text \<open>The text \<open>[]\<close> between two line feeds.\<close>

definition empty_array_text :: gostring where
  "empty_array_text = [10, 91, 93, 10]"

theorem cleanJsonContent_fences_witness:
  "cleanJsonContent (fence_json @ empty_array_text @ fence) = cleanJsonContent empty_array_text \<and>
   cleanJsonContent (fence @ empty_array_text @ fence) = cleanJsonContent empty_array_text"
proof -
  have "\<not> prefix fence (TrimSpace empty_array_text)"
    by (simp add: empty_array_text_def TrimSpace_def isSpace_def fence_eq)
  moreover have "\<not> prefix (map of_char ''json'') empty_array_text"
    by (simp add: empty_array_text_def)
  ultimately show ?thesis
    using cleanJsonContent_fences [of empty_array_text] by blast
qed

text \<open>
  For every text, as C8 is stated, the claim fails on a text that begins with a fence
  itself: cleaning the three backquotes alone gives the empty string, and cleaning them
  between the two fences gives them back.
\<close>

theorem cleanJsonContent_fences_counterexample:
  "cleanJsonContent (fence_json @ fence @ fence) = [96, 96, 96] \<and>
   cleanJsonContent fence = []"
  by (simp add: cleanJsonContent_def fence_eq fence_json_eq TrimSpace_def isSpace_def
      HasPrefix_def TrimPrefix_def LastIndex_def)

section \<open>The batch loop (CreateSubtitles, processBatch, parseBatchResponse)\<close>

text \<open>
  Every way the Go code leaves the run early is an error value: the debug directory
  cannot be created; the request cannot be built or sent, or its answer cannot be read;
  the status is not 200; the answer is not the JSON envelope; the envelope has no
  candidate or no part; the cleaned text is not an array of candidates; and the panic of
  the slice expression \<open>wordTimings[startIndex:endIndex]\<close> when the start index is
  negative.
\<close>

datatype error =
    DebugDirError
  | RequestError
  | StatusError int
  | ResponseParseError
  | NoContentError
  | ArrayParseError
  | SliceBoundsPanic

text \<open>
  The envelope of the service's answer, as \<open>json.Unmarshal\<close> fills it in: the
  candidates, each with the texts of its parts.
\<close>

type_synonym Part = gostring
type_synonym Candidate = "Part list"
type_synonym Response = "Candidate list"

text \<open>
  What lies outside the program. The service is called once per batch, and the batch
  number goes up by one with every call, so a run is determined by the reply to each
  batch number: either the request fails, or there is an answer with a status and a
  body, given here as the outcome of decoding the body into the envelope (\<open>None\<close>
  when \<open>json.Unmarshal\<close> fails). \<open>unmarshal\<close> is \<open>json.Unmarshal\<close> into a slice of
  \<open>SubtitleInput\<close>. \<open>debug_dir_fails\<close> says that debug mode is on and \<open>os.MkdirAll\<close>
  fails.
\<close>

datatype reply = RequestFailed | Answer int "Response option"

record world =
  debug_dir_fails :: bool
  reply_of :: "nat \<Rightarrow> reply"
  unmarshal :: "gostring \<Rightarrow> SubtitleInput list option"

text \<open>
  The line \<open>Processing batch %d: words %d to %d (total: %d)\<close> that the loop prints for
  each batch: the batch number, the start index, the end index minus one, and the
  length of the batch.
\<close>

datatype progress_line = ProcessingBatch nat int int nat

definition parseBatchResponse ::
  "(gostring \<Rightarrow> SubtitleInput list option) \<Rightarrow> Response option \<Rightarrow> WordTiming list \<Rightarrow> int
     \<Rightarrow> error + Subtitle list \<times> int" where
  "parseBatchResponse unmarshal_array respBody wordTimings startIndex =
     (case respBody of
        None \<Rightarrow> Inl ResponseParseError
      | Some geminiResp \<Rightarrow>
          if length geminiResp = 0 \<or> length (geminiResp ! 0) = 0 then Inl NoContentError
          else
            (let jsonContent = cleanJsonContent (geminiResp ! 0 ! 0)
             in case unmarshal_array jsonContent of
                  None \<Rightarrow> Inl ArrayParseError
                | Some subtitleInputs \<Rightarrow>
                    (let lastWordIndex =
                           (if length subtitleInputs > 0
                            then sint (st_id (subtitleInputs ! (length subtitleInputs - 1)))
                            else startIndex)
                     in Inr (processSubtitles subtitleInputs, lastWordIndex))))"

definition processBatch ::
  "world \<Rightarrow> WordTiming list \<Rightarrow> WordTiming list \<Rightarrow> int \<Rightarrow> nat
     \<Rightarrow> error + Subtitle list \<times> int" where
  "processBatch w batch allWords startIndex batchNum =
     (case reply_of w batchNum of
        RequestFailed \<Rightarrow> Inl RequestError
      | Answer status respBody \<Rightarrow>
          if status \<noteq> 200 then Inl (StatusError status)
          else parseBatchResponse (unmarshal w) respBody batch startIndex)"

text \<open>
  The indices of the loop are Go \<open>int\<close>s as well. The only arithmetic on them is
  \<open>startIndex + batchSize\<close>, computed when \<open>startIndex\<close> is below the length of the
  slice, which cannot wrap around for a slice that fits in memory; they are modelled as
  integers, and the start index read from a candidate is the signed value of its
  \<open>st_id\<close>. \<open>subslice xs lo hi\<close> is \<open>xs[lo:hi]\<close> for \<open>0 \<le> lo \<le> hi \<le> len(xs)\<close>.
\<close>

definition batchSize :: int where
  "batchSize = 300"

definition subslice :: "'a list \<Rightarrow> int \<Rightarrow> int \<Rightarrow> 'a list" where
  "subslice xs lo hi = take (nat hi - nat lo) (drop (nat lo) xs)"

text \<open>
  The loop \<open>for startIndex < len(wordTimings)\<close>, with its state: the start index, the
  batch number, the subtitles so far and the lines printed so far. \<open>None\<close> is a loop
  that never ends.
\<close>

partial_function (option) batch_loop ::
  "world \<Rightarrow> WordTiming list \<Rightarrow> int \<Rightarrow> nat \<Rightarrow> Subtitle list \<Rightarrow> progress_line list
     \<Rightarrow> (error + Subtitle list \<times> progress_line list) option" where
  "batch_loop w wordTimings startIndex batchNum allSubtitles out =
     (if startIndex < int (length wordTimings)
      then
        (let endIndex = (if startIndex + batchSize > int (length wordTimings)
                         then int (length wordTimings) else startIndex + batchSize)
         in if startIndex < 0 then Some (Inl SliceBoundsPanic)
            else
              (let currentBatch = subslice wordTimings startIndex endIndex;
                   out' = out @ [ProcessingBatch batchNum startIndex (endIndex - 1)
                                   (length currentBatch)]
               in case processBatch w currentBatch wordTimings startIndex batchNum of
                    Inl err \<Rightarrow> Some (Inl err)
                  | Inr (subtitles, lastWordIndex) \<Rightarrow>
                      if int (length currentBatch) < batchSize
                      then Some (Inr (allSubtitles @ subtitles, out'))
                      else batch_loop w wordTimings lastWordIndex (batchNum + 1)
                             (allSubtitles @ subtitles) out'))
      else Some (Inr (allSubtitles, out)))"

definition CreateSubtitles ::
  "world \<Rightarrow> WordTiming list \<Rightarrow> (error + Subtitle list \<times> progress_line list) option" where
  "CreateSubtitles w wordTimings =
     (if debug_dir_fails w then Some (Inl DebugDirError)
      else case batch_loop w wordTimings 0 1 [] [] of
             None \<Rightarrow> None
           | Some (Inl err) \<Rightarrow> Some (Inl err)
           | Some (Inr (allSubtitles, out)) \<Rightarrow> Some (Inr (postProcess allSubtitles, out)))"

section \<open>Properties of the batch loop\<close>

text \<open>
  The candidate array that the reply to a batch number decodes to, when the request
  succeeds with status 200, the envelope has a first candidate with a first part, and
  the cleaned text of that part is an array of candidates. \<open>last_st_id\<close> is the
  \<open>StartWordIndex\<close> of the last candidate of a non-empty array.
\<close>

definition candidates_of :: "world \<Rightarrow> nat \<Rightarrow> SubtitleInput list option" where
  "candidates_of w batchNum =
     (case reply_of w batchNum of
        RequestFailed \<Rightarrow> None
      | Answer status respBody \<Rightarrow>
          (case respBody of
             None \<Rightarrow> None
           | Some geminiResp \<Rightarrow>
               if status = 200 \<and> geminiResp \<noteq> [] \<and> geminiResp ! 0 \<noteq> []
               then unmarshal w (cleanJsonContent (geminiResp ! 0 ! 0))
               else None))"

definition last_st_id :: "SubtitleInput list \<Rightarrow> int" where
  "last_st_id cs = sint (st_id (cs ! (length cs - 1)))"

lemma processBatch_decoded:
  "candidates_of w n = Some cs \<Longrightarrow>
   processBatch w batch allWords s n =
     Inr (processSubtitles cs, if cs \<noteq> [] then last_st_id cs else s)"
  by (auto simp: candidates_of_def processBatch_def parseBatchResponse_def last_st_id_def
      split: reply.splits option.splits if_splits)

lemma processBatch_failed:
  "candidates_of w n = None \<Longrightarrow> \<exists>err. processBatch w batch allWords s n = Inl err"
  by (auto simp: candidates_of_def processBatch_def parseBatchResponse_def
      split: reply.splits option.splits if_splits)

text \<open>The end index of the batch that starts at \<open>s\<close>, and the loop unfolded once.\<close>

definition endIndex_of :: "WordTiming list \<Rightarrow> int \<Rightarrow> int" where
  "endIndex_of ws s =
     (if int (length ws) < s + batchSize then int (length ws) else s + batchSize)"

lemma batch_loop_outside:
  "\<not> s < int (length ws) \<Longrightarrow> batch_loop w ws s n acc out = Some (Inr (acc, out))"
  by (subst batch_loop.simps) simp

lemma batch_loop_negative:
  "s < int (length ws) \<Longrightarrow> s < 0 \<Longrightarrow> batch_loop w ws s n acc out = Some (Inl SliceBoundsPanic)"
  by (subst batch_loop.simps) (simp add: Let_def)

lemma batch_loop_step:
  assumes "0 \<le> s" and "s < int (length ws)"
  shows "batch_loop w ws s n acc out =
     (case processBatch w (subslice ws s (endIndex_of ws s)) ws s n of
        Inl err \<Rightarrow> Some (Inl err)
      | Inr (subtitles, lastWordIndex) \<Rightarrow>
          if int (length (subslice ws s (endIndex_of ws s))) < batchSize
          then Some (Inr (acc @ subtitles,
                 out @ [ProcessingBatch n s (endIndex_of ws s - 1)
                          (length (subslice ws s (endIndex_of ws s)))]))
          else batch_loop w ws lastWordIndex (n + 1) (acc @ subtitles)
                 (out @ [ProcessingBatch n s (endIndex_of ws s - 1)
                           (length (subslice ws s (endIndex_of ws s)))]))"
  using assms unfolding endIndex_of_def
  by (subst batch_loop.simps) (simp add: Let_def)

subsection \<open>Termination\<close>

text \<open>
  \<open>batch_start w N n\<close> is the start index with which the run on \<open>N\<close> words comes to
  batch number \<open>n\<close>, when it gets that far: the first batch starts at 0, and the loop
  goes on from batch \<open>n\<close> to the next one when batch \<open>n\<close> is a full batch whose reply
  decodes to a candidate array.

  The replies are progressing when every full batch that the run reaches, and whose
  reply decodes, gets a non-empty array whose last \<open>st_id\<close> is greater than the start
  index of that batch. Nothing is asked of the reply to a batch shorter than the batch
  size, after which the loop breaks, nor of the replies that the run never asks for.
\<close>

fun batch_start :: "world \<Rightarrow> nat \<Rightarrow> nat \<Rightarrow> int option" where
  "batch_start w N 0 = None"
| "batch_start w N (Suc 0) = Some 0"
| "batch_start w N (Suc (Suc n)) =
     (case batch_start w N (Suc n) of
        None \<Rightarrow> None
      | Some s \<Rightarrow>
          if 0 \<le> s \<and> s + batchSize \<le> int N
          then (case candidates_of w (Suc n) of
                  None \<Rightarrow> None
                | Some cs \<Rightarrow> Some (if cs \<noteq> [] then last_st_id cs else s))
          else None)"

definition progressing :: "world \<Rightarrow> nat \<Rightarrow> bool" where
  "progressing w N \<longleftrightarrow>
     (\<forall>n s cs. batch_start w N n = Some s \<longrightarrow> 0 \<le> s \<longrightarrow> s + batchSize \<le> int N \<longrightarrow>
        candidates_of w n = Some cs \<longrightarrow> cs \<noteq> [] \<and> s < last_st_id cs)"

lemma length_batch:
  assumes "0 \<le> s" and "s < int (length ws)"
  shows "int (length (subslice ws s (endIndex_of ws s))) =
     (if int (length ws) < s + batchSize then int (length ws) - s else batchSize)"
  using assms by (auto simp: subslice_def endIndex_of_def batchSize_def)

lemma batch_loop_returns:
  assumes prog: "progressing w (length ws)"
    and reached: "batch_start w (length ws) n = Some s"
  shows "\<exists>r. batch_loop w ws s n acc out = Some r"
  using reached
proof (induction "nat (int (length ws) - s)" arbitrary: s n acc out rule: less_induct)
  case less
  show ?case
  proof (cases "s < int (length ws) \<and> 0 \<le> s")
    case False
    then show ?thesis
      using batch_loop_outside [of s ws] batch_loop_negative [of s ws] by fastforce
  next
    case True
    define B where "B = subslice ws s (endIndex_of ws s)"
    note step = batch_loop_step [of s ws w n acc out, folded B_def]
    have len: "int (length B) =
        (if int (length ws) < s + batchSize then int (length ws) - s else batchSize)"
      unfolding B_def using True by (intro length_batch) simp_all
    show ?thesis
    proof (cases "candidates_of w n")
      case None
      then obtain err where "processBatch w B ws s n = Inl err"
        using processBatch_failed by blast
      then show ?thesis using True by (simp add: step)
    next
      case (Some cs)
      have pb: "processBatch w B ws s n =
          Inr (processSubtitles cs, if cs \<noteq> [] then last_st_id cs else s)"
        using Some by (rule processBatch_decoded)
      show ?thesis
      proof (cases "int (length B) < batchSize")
        case short: True
        then show ?thesis using True by (simp add: step pb)
      next
        case full: False
        then have fits: "s + batchSize \<le> int (length ws)"
          using len by (simp add: batchSize_def split: if_splits)
        with prog less.prems Some True have ne: "cs \<noteq> []" and gt: "s < last_st_id cs"
          unfolding progressing_def by blast+
        from less.prems obtain m where n: "n = Suc m"
          by (cases n) simp_all
        have nxt: "batch_start w (length ws) (Suc n) = Some (last_st_id cs)"
          using less.prems Some True fits ne by (simp add: n)
        have "nat (int (length ws) - last_st_id cs) < nat (int (length ws) - s)"
          using gt True by simp
        then have "\<exists>r. batch_loop w ws (last_st_id cs) (Suc n) acc' out' = Some r" for acc' out'
          using less.hyps nxt by blast
        then show ?thesis using True full ne by (simp add: step pb)
      qed
    qed
  qed
qed

text \<open>
  Claim C2, as the code has it. For every word sequence, the batch loop ends, with a
  track or with an error, whenever the replies are progressing. Nothing is said here
  about a full batch whose reply decodes to the empty array.
\<close>

theorem CreateSubtitles_terminates:
  assumes "progressing w (length wordTimings)"
  shows "\<exists>r. CreateSubtitles w wordTimings = Some r"
proof -
  have "batch_start w (length wordTimings) 1 = Some 0"
    by simp
  with assms obtain r where "batch_loop w wordTimings 0 1 [] [] = Some r"
    using batch_loop_returns by blast
  then show ?thesis
    by (auto simp: CreateSubtitles_def split: sum.splits prod.splits)
qed

subsection \<open>Concrete runs\<close>

text \<open>
  \<open>words n\<close> are \<open>n\<close> words with the ids 0 to \<open>n - 1\<close>, one second apart.
  \<open>unmarshal_sample\<close> is \<open>json.Unmarshal\<close> on four texts (a field that is absent from
  the JSON keeps its zero value); it rejects every other text. The worlds below answer
  every request with status 200 and one of these texts.
\<close>

definition words :: "nat \<Rightarrow> WordTiming list" where
  "words n = map (\<lambda>i. \<lparr>ID = of_nat i, Word = [119], StartTime = of_nat (1000 * i)\<rparr>) [0..<n]"

definition candidate_at :: "goint \<Rightarrow> SubtitleInput" where
  "candidate_at i = \<lparr>st_id = i, st_ms = 0, lw_ms = 0, text_in = [], incomplete = False\<rparr>"

definition unmarshal_sample :: "gostring \<Rightarrow> SubtitleInput list option" where
  "unmarshal_sample s =
     (if s = map of_char ''[]'' then Some []
      else if s = map of_char ''[{}]'' then Some [candidate_at 0]
      else if s = map of_char ''[{\"st_id\":295}]'' then Some [candidate_at 295]
      else if s = map of_char ''[{\"st_id\":0},{\"st_id\":295}]''
      then Some [candidate_at 0, candidate_at 295]
      else None)"

definition stuck_world :: world where
  "stuck_world =
     \<lparr>debug_dir_fails = False,
      reply_of = (\<lambda>batchNum. Answer 200 (Some [[map of_char ''[{}]'']])),
      unmarshal = unmarshal_sample\<rparr>"

lemma length_words [simp]: "length (words n) = n"
  by (simp add: words_def)

lemma cleanJsonContent_array:
  assumes "t \<noteq> []" and "hd t = 91" and "last t = 93"
  shows "cleanJsonContent t = t"
proof -
  have ts: "TrimSpace t = t"
    using assms by (intro TrimSpace_fixed) (simp_all add: isSpace_def)
  have "\<not> prefix fence t"
    using assms by (cases t) (simp_all add: fence_eq)
  then show ?thesis
    by (simp add: cleanJsonContent_unfenced ts)
qed

definition empty_world :: world where
  "empty_world =
     \<lparr>debug_dir_fails = False,
      reply_of = (\<lambda>batchNum. Answer 200 (Some [[map of_char ''[]'']])),
      unmarshal = unmarshal_sample\<rparr>"

lemma candidates_of_stuck: "candidates_of stuck_world n = Some [candidate_at 0]"
proof -
  have "cleanJsonContent (map of_char ''[{}]'') = map of_char ''[{}]''"
    by (rule cleanJsonContent_array) simp_all
  then show ?thesis
    by (simp add: candidates_of_def stuck_world_def unmarshal_sample_def)
qed

lemma candidates_of_empty: "candidates_of empty_world n = Some []"
proof -
  have "cleanJsonContent (map of_char ''[]'') = map of_char ''[]''"
    by (rule cleanJsonContent_array) simp_all
  then show ?thesis
    by (simp add: candidates_of_def empty_world_def unmarshal_sample_def)
qed

text \<open>A loop that is handed its own start index again on a full batch never returns.\<close>

lemma batch_loop_stays:
  assumes "batch_loop w' ws' s' n acc out = Some y"
    and "\<And>n b. \<exists>subs. processBatch w b ws 0 n = Inr (subs, 0)"
    and "300 \<le> length ws"
  shows "\<not> (w' = w \<and> ws' = ws \<and> s' = 0)"
  using assms(1)
proof (induction w' ws' s' n acc out y rule: batch_loop.raw_induct [rotated, consumes 1])
  case (1 loop w' ws' s' n acc out y)
  show ?case
  proof
    assume st: "w' = w \<and> ws' = ws \<and> s' = 0"
    define B where "B = subslice ws 0 300"
    from assms(2) obtain subs where pb: "processBatch w B ws 0 n = Inr (subs, 0)"
      by blast
    have len: "length B = 300"
      using assms(3) by (simp add: B_def subslice_def)
    have ne: "ws \<noteq> []"
      using assms(3) by auto
    have nl: "\<not> length ws < 300"
      using assms(3) by simp
    from st have eqs: "w' = w" "ws' = ws" "s' = 0"
      by simp_all
    from 1(2) have "loop w ws 0 (n + 1) (acc @ subs)
            (out @ [ProcessingBatch n 0 299 300]) = Some y"
      unfolding eqs
      by (simp add: Let_def batchSize_def ne nl B_def [symmetric] pb len)
    then show False
      using 1(1) by blast
  qed
qed

lemma batch_loop_stays_None:
  assumes "\<And>n b. \<exists>subs. processBatch w b ws 0 n = Inr (subs, 0)"
    and "300 \<le> length ws"
  shows "batch_loop w ws 0 n acc out = None"
proof (cases "batch_loop w ws 0 n acc out")
  case None
  then show ?thesis .
next
  case (Some y)
  then show ?thesis
    using batch_loop_stays [of w ws 0 n acc out y w ws] assms by blast
qed

text \<open>
  For every sequence of responses, as C2 is stated, the claim fails: when each reply is
  the one-candidate array \<open>[{}]\<close>, whose \<open>st_id\<close> is 0, a run on 300 words starts every
  batch at index 0 and never ends.
\<close>

theorem CreateSubtitles_terminates_counterexample:
  "CreateSubtitles stuck_world (words 300) = None"
proof -
  have "\<exists>subs. processBatch stuck_world b (words 300) 0 n = Inr (subs, 0)" for n b
    using processBatch_decoded [OF candidates_of_stuck, of b "words 300" 0 n]
    by (simp add: last_st_id_def candidate_at_def)
  then have "batch_loop stuck_world (words 300) 0 1 [] [] = None"
    by (intro batch_loop_stays_None) simp_all
  then show ?thesis
    by (simp add: CreateSubtitles_def stuck_world_def)
qed

lemma processBatch_empty:
  "processBatch empty_world batch allWords s n = Inr ([], s)"
  using processBatch_decoded [OF candidates_of_empty, of batch allWords s n]
  by (simp add: processSubtitles_def)

text \<open>
  Claim C1 on the code. With 300 words and replies that decode to the empty array, the
  first batch hands back the start index 0, not \<open>0 + 300\<close>: the second batch starts at
  index 0 again, and the run never ends.
\<close>

theorem empty_response_keeps_start_index:
  "processBatch empty_world (subslice (words 300) 0 300) (words 300) 0 1 = Inr ([], 0) \<and>
   batch_loop empty_world (words 300) 0 1 [] [] =
     batch_loop empty_world (words 300) 0 2 [] [ProcessingBatch 1 0 299 300] \<and>
   CreateSubtitles empty_world (words 300) = None"
proof -
  have step: "batch_loop empty_world (words 300) 0 1 [] [] =
     batch_loop empty_world (words 300) 0 2 [] [ProcessingBatch 1 0 299 300]"
    by (subst batch_loop.simps)
      (simp add: Let_def processBatch_empty batchSize_def subslice_def numeral_2_eq_2)
  have never: "batch_loop empty_world (words 300) 0 1 [] [] = None"
    by (intro batch_loop_stays_None) (simp_all add: processBatch_empty)
  have "\<not> debug_dir_fails empty_world"
    by (simp add: empty_world_def)
  then have "CreateSubtitles empty_world (words 300) = None"
    using never by (simp add: CreateSubtitles_def)
  with step show ?thesis
    by (simp only: processBatch_empty simp_thms)
qed

text \<open>
  The run of the specification's scenario: 310 words, a first reply whose last
  candidate starts at word 295, and a second reply of one candidate that starts at
  word 295. The first batch is full and hands over the start index 295; the second
  batch has 15 words, and the loop breaks after it.
\<close>

definition scenario_world :: world where
  "scenario_world =
     \<lparr>debug_dir_fails = False,
      reply_of = (\<lambda>batchNum. if batchNum = 1
                   then Answer 200 (Some [[map of_char ''[{\"st_id\":0},{\"st_id\":295}]'']])
                   else Answer 200 (Some [[map of_char ''[{\"st_id\":295}]'']])),
      unmarshal = unmarshal_sample\<rparr>"

lemma candidates_of_scenario:
  "candidates_of scenario_world n =
     (if n = 1 then Some [candidate_at 0, candidate_at 295] else Some [candidate_at 295])"
proof -
  have "cleanJsonContent (map of_char ''[{\"st_id\":295}]'') = map of_char ''[{\"st_id\":295}]''"
    by (rule cleanJsonContent_array) simp_all
  moreover have "cleanJsonContent (map of_char ''[{\"st_id\":0},{\"st_id\":295}]'')
      = map of_char ''[{\"st_id\":0},{\"st_id\":295}]''"
    by (rule cleanJsonContent_array) simp_all
  ultimately show ?thesis
    by (simp add: candidates_of_def scenario_world_def unmarshal_sample_def)
qed

lemma batch_start_scenario_2: "batch_start scenario_world 310 (Suc (Suc 0)) = Some 295"
  by (simp add: candidates_of_scenario batchSize_def last_st_id_def candidate_at_def)

lemma batch_start_scenario_3: "batch_start scenario_world 310 (Suc (Suc (Suc k))) = None"
proof (induction k)
  case 0
  show ?case
    by (subst batch_start.simps(3), subst batch_start_scenario_2) (simp add: batchSize_def)
next
  case (Suc k)
  then show ?case by simp
qed

lemma batch_start_scenario:
  "batch_start scenario_world 310 n =
     (if n = 1 then Some 0 else if n = 2 then Some 295 else None)"
proof (cases n)
  case 0
  then show ?thesis by simp
next
  case (Suc m)
  note n = this
  show ?thesis
  proof (cases m)
    case 0
    with n show ?thesis by simp
  next
    case (Suc k)
    note m = this
    show ?thesis
    proof (cases k)
      case 0
      with n m show ?thesis using batch_start_scenario_2 by (simp add: numeral_2_eq_2)
    next
      case (Suc l)
      with n m show ?thesis using batch_start_scenario_3 [of l] by (simp add: numeral_2_eq_2)
    qed
  qed
qed

lemma progressing_scenario: "progressing scenario_world 310"
  by (auto simp: progressing_def batch_start_scenario candidates_of_scenario batchSize_def
      last_st_id_def candidate_at_def split: if_splits)

theorem CreateSubtitles_terminates_witness:
  "CreateSubtitles scenario_world (words 310) \<noteq> None"
proof -
  have "progressing scenario_world (length (words 310))"
    by (simp add: progressing_scenario)
  then show ?thesis
    using CreateSubtitles_terminates [of scenario_world "words 310"] by auto
qed

section \<open>Coverage of the word ids by the batches\<close>








subsection \<open>Ranges of integers\<close>






subsection \<open>The lines a completed run has printed\<close>






subsection \<open>The scenario of 310 words\<close>







end
